theory Spec2Isabelle
  imports Main "HOL-Library.Word"
begin

unbundle bit_operations_syntax

section \<open>The circular buffer of \<^verbatim>\<open>circular_buffer.c\<close>\<close>

text \<open>
  A shallow embedding of the ring buffer of \<^verbatim>\<open>src/circular_buffer.c\<close>.
  \<^item> \<^verbatim>\<open>uint32_t\<close> and \<^verbatim>\<open>int32_t\<close> are 32-bit words; arithmetic wraps around, and
    a stored \<^verbatim>\<open>int32_t\<close> is read with \<open>sint\<close>.
  \<^item> A pointer that may be \<^verbatim>\<open>NULL\<close> is an \<open>option\<close>: \<open>None\<close> is \<^verbatim>\<open>NULL\<close>, \<open>Some x\<close> is
    a pointer to a location holding \<open>x\<close>. A function that writes through the pointer
    returns the new contents of the location.
  \<^item> The storage block behind \<^verbatim>\<open>pBuffer\<close> is a list of slots.
  \<^item> An access to \<^verbatim>\<open>pBuffer[i]\<close> through a null \<^verbatim>\<open>pBuffer\<close>, or with \<open>i\<close> outside the
    block, is undefined behaviour in C. A function that can perform one returns an
    \<open>option\<close> whose \<open>None\<close> is that undefined behaviour.
  \<^item> The \<^verbatim>\<open>printf\<close> calls produce console output only and are left out.
  \<^item> The file is taken as it compiles by default, without \<^verbatim>\<open>USE_STATIC_ALLOCATION\<close>.
\<close>

type_synonym uint32_t = "32 word"
type_synonym SensorData_t = "32 word"

subsection \<open>Configuration macros and error codes\<close>

definition POLICY_OVERWRITE_OLDEST :: int where "POLICY_OVERWRITE_OLDEST = 0"
definition POLICY_REJECT_NEW :: int where "POLICY_REJECT_NEW = 1"
definition BUFFER_FULL_POLICY :: int where "BUFFER_FULL_POLICY = POLICY_OVERWRITE_OLDEST"

definition CB_SUCCESS :: int where "CB_SUCCESS = 0"
definition CB_ERROR_EMPTY :: int where "CB_ERROR_EMPTY = - 1"
definition CB_ERROR_FULL :: int where "CB_ERROR_FULL = - 2"
definition CB_ERROR_INVALID_SIZE :: int where "CB_ERROR_INVALID_SIZE = - 3"
definition CB_ERROR_NULL_POINTER :: int where "CB_ERROR_NULL_POINTER = - 4"

subsection \<open>The buffer structure\<close>

record CircularBuffer_t =
  pBuffer :: "SensorData_t list option"
  writeIndex :: uint32_t
  readIndex :: uint32_t
  count :: uint32_t
  capacity :: uint32_t
  indexMask :: uint32_t
  isInitialized :: bool

subsection \<open>Helper functions\<close>

definition isPowerOfTwo :: "uint32_t \<Rightarrow> bool" where
  "isPowerOfTwo n = (n \<noteq> 0 \<and> (n AND (n - 1)) = 0)"

definition wrapIndex :: "CircularBuffer_t \<Rightarrow> uint32_t \<Rightarrow> uint32_t" where
  "wrapIndex cb index = index AND indexMask cb"

text \<open>
  \<^verbatim>\<open>p[i]\<close> as an rvalue and \<^verbatim>\<open>p[i] = v\<close>: defined only for a non-null block and an index
  inside it.
\<close>

definition slot_read :: "SensorData_t list option \<Rightarrow> uint32_t \<Rightarrow> SensorData_t option" where
  "slot_read p i =
     (case p of
        None \<Rightarrow> None
      | Some buf \<Rightarrow> if unat i < length buf then Some (buf ! unat i) else None)"

definition slot_write ::
  "SensorData_t list option \<Rightarrow> uint32_t \<Rightarrow> SensorData_t \<Rightarrow> SensorData_t list option" where
  "slot_write p i v =
     (case p of
        None \<Rightarrow> None
      | Some buf \<Rightarrow> if unat i < length buf then Some (buf[unat i := v]) else None)"

subsection \<open>Public API\<close>

text \<open>
  \<^verbatim>\<open>cb_init\<close>. \<open>sz\<close> is the parameter \<^verbatim>\<open>size\<close>. The argument \<open>alloc\<close> is the
  outcome of the \<^verbatim>\<open>malloc\<close> call: \<open>True\<close> when it returned a block. The block is zeroed by \<^verbatim>\<open>memset\<close>. The byte count
  \<^verbatim>\<open>sizeof(SensorData_t) * size\<close> is taken not to overflow \<^verbatim>\<open>size_t\<close>.
\<close>

definition cb_init ::
  "CircularBuffer_t option \<Rightarrow> uint32_t \<Rightarrow> bool \<Rightarrow> int \<times> CircularBuffer_t option" where
  "cb_init p sz alloc =
     (case p of
        None \<Rightarrow> (CB_ERROR_NULL_POINTER, None)
      | Some cb \<Rightarrow>
          if sz = 0 \<or> \<not> isPowerOfTwo sz then (CB_ERROR_INVALID_SIZE, Some cb)
          else
            let cb1 = cb\<lparr>capacity := sz, indexMask := sz - 1, writeIndex := 0,
                         readIndex := 0, count := 0\<rparr>
            in if \<not> alloc then (CB_ERROR_NULL_POINTER, Some (cb1\<lparr>pBuffer := None\<rparr>))
               else (CB_SUCCESS,
                     Some (cb1\<lparr>pBuffer := Some (replicate (unat sz) 0),
                               isInitialized := True\<rparr>)))"

text \<open>
  \<^verbatim>\<open>cb_deinit\<close>. The third component of the result lists the blocks handed to
  \<^verbatim>\<open>free\<close> during the call.
\<close>

definition cb_deinit ::
  "CircularBuffer_t option \<Rightarrow> int \<times> CircularBuffer_t option \<times> SensorData_t list list" where
  "cb_deinit p =
     (case p of
        None \<Rightarrow> (CB_ERROR_NULL_POINTER, None, [])
      | Some cb \<Rightarrow>
          let (cb1, freed) =
                (case pBuffer cb of
                   Some buf \<Rightarrow> (cb\<lparr>pBuffer := None\<rparr>, [buf])
                 | None \<Rightarrow> (cb, []))
          in (CB_SUCCESS,
              Some (cb1\<lparr>isInitialized := False, capacity := 0, writeIndex := 0,
                        readIndex := 0, count := 0\<rparr>),
              freed))"

definition cb_isEmpty :: "CircularBuffer_t option \<Rightarrow> bool" where
  "cb_isEmpty p =
     (case p of
        None \<Rightarrow> True
      | Some cb \<Rightarrow> if \<not> isInitialized cb then True else count cb = 0)"

definition cb_isFull :: "CircularBuffer_t option \<Rightarrow> bool" where
  "cb_isFull p =
     (case p of
        None \<Rightarrow> False
      | Some cb \<Rightarrow> if \<not> isInitialized cb then False else count cb = capacity cb)"

text \<open>
  \<^verbatim>\<open>cb_push\<close>. The branch taken on a full buffer is chosen by the preprocessor from the
  macro \<^verbatim>\<open>BUFFER_FULL_POLICY\<close>; the macro's value is the argument \<open>policy\<close> here, and
  \<open>cb_push\<close> below is the function as the file configures it. With a value that is
  neither policy, the \<^verbatim>\<open>#if\<close>/\<^verbatim>\<open>#elif\<close> leaves the full branch empty.
\<close>

definition cb_push_policy ::
  "int \<Rightarrow> CircularBuffer_t option \<Rightarrow> SensorData_t \<Rightarrow> (int \<times> CircularBuffer_t option) option" where
  "cb_push_policy policy p data =
     (case p of
        None \<Rightarrow> Some (CB_ERROR_NULL_POINTER, None)
      | Some cb \<Rightarrow>
          if \<not> isInitialized cb then Some (CB_ERROR_NULL_POINTER, Some cb)
          else if cb_isFull (Some cb) \<and> policy = POLICY_REJECT_NEW
          then Some (CB_ERROR_FULL, Some cb)
          else
            let cb1 =
                  (if cb_isFull (Some cb)
                   then (if policy = POLICY_OVERWRITE_OLDEST
                         then cb\<lparr>readIndex := wrapIndex cb (readIndex cb + 1)\<rparr>
                         else cb)
                   else cb\<lparr>count := count cb + 1\<rparr>)
            in (case slot_write (pBuffer cb1) (writeIndex cb1) data of
                  None \<Rightarrow> None
                | Some buf \<Rightarrow>
                    let cb2 = cb1\<lparr>pBuffer := Some buf\<rparr>
                    in Some (CB_SUCCESS,
                             Some (cb2\<lparr>writeIndex := wrapIndex cb2 (writeIndex cb2 + 1)\<rparr>))))"

definition cb_push ::
  "CircularBuffer_t option \<Rightarrow> SensorData_t \<Rightarrow> (int \<times> CircularBuffer_t option) option" where
  "cb_push = cb_push_policy BUFFER_FULL_POLICY"

text \<open>
  \<^verbatim>\<open>cb_pop\<close>. \<open>pData\<close> is the caller's output location; the third component of the
  result is that location after the call.
\<close>

definition cb_pop ::
  "CircularBuffer_t option \<Rightarrow> SensorData_t option
     \<Rightarrow> (int \<times> CircularBuffer_t option \<times> SensorData_t option) option" where
  "cb_pop p pData =
     (case p of
        None \<Rightarrow> Some (CB_ERROR_NULL_POINTER, None, pData)
      | Some cb \<Rightarrow>
          if \<not> isInitialized cb then Some (CB_ERROR_NULL_POINTER, Some cb, pData)
          else if pData = None then Some (CB_ERROR_NULL_POINTER, Some cb, pData)
          else if cb_isEmpty (Some cb) then Some (CB_ERROR_EMPTY, Some cb, pData)
          else
            (case slot_read (pBuffer cb) (readIndex cb) of
               None \<Rightarrow> None
             | Some v \<Rightarrow>
                 let cb1 = cb\<lparr>readIndex := wrapIndex cb (readIndex cb + 1)\<rparr>
                 in Some (CB_SUCCESS, Some (cb1\<lparr>count := count cb1 - 1\<rparr>), Some v)))"

definition cb_getCount :: "CircularBuffer_t option \<Rightarrow> uint32_t" where
  "cb_getCount p =
     (case p of
        None \<Rightarrow> 0
      | Some cb \<Rightarrow> if \<not> isInitialized cb then 0 else count cb)"

definition cb_getFreeSpace :: "CircularBuffer_t option \<Rightarrow> uint32_t" where
  "cb_getFreeSpace p =
     (case p of
        None \<Rightarrow> 0
      | Some cb \<Rightarrow> if \<not> isInitialized cb then 0 else capacity cb - count cb)"

definition cb_clear :: "CircularBuffer_t option \<Rightarrow> int \<times> CircularBuffer_t option" where
  "cb_clear p =
     (case p of
        None \<Rightarrow> (CB_ERROR_NULL_POINTER, None)
      | Some cb \<Rightarrow>
          if \<not> isInitialized cb then (CB_ERROR_NULL_POINTER, Some cb)
          else (CB_SUCCESS, Some (cb\<lparr>writeIndex := 0, readIndex := 0, count := 0\<rparr>)))"

definition cb_peek ::
  "CircularBuffer_t option \<Rightarrow> SensorData_t option
     \<Rightarrow> (int \<times> CircularBuffer_t option \<times> SensorData_t option) option" where
  "cb_peek p pData =
     (case p of
        None \<Rightarrow> Some (CB_ERROR_NULL_POINTER, None, pData)
      | Some cb \<Rightarrow>
          if \<not> isInitialized cb \<or> pData = None
          then Some (CB_ERROR_NULL_POINTER, Some cb, pData)
          else if cb_isEmpty (Some cb) then Some (CB_ERROR_EMPTY, Some cb, pData)
          else
            (case slot_read (pBuffer cb) (readIndex cb) of
               None \<Rightarrow> None
             | Some v \<Rightarrow> Some (CB_SUCCESS, Some cb, Some v)))"

text \<open>
  \<^verbatim>\<open>cb_printContents\<close>: the values the function prints, in the order it prints them. It
  starts at \<open>readIndex\<close> and visits \<open>count\<close> slots, wrapping the index each time.
\<close>

fun print_loop :: "CircularBuffer_t \<Rightarrow> uint32_t \<Rightarrow> nat \<Rightarrow> SensorData_t list option" where
  "print_loop cb idx 0 = Some []"
| "print_loop cb idx (Suc n) =
     (case slot_read (pBuffer cb) idx of
        None \<Rightarrow> None
      | Some v \<Rightarrow>
          (case print_loop cb (wrapIndex cb (idx + 1)) n of
             None \<Rightarrow> None
           | Some vs \<Rightarrow> Some (v # vs)))"

definition cb_printContents :: "CircularBuffer_t option \<Rightarrow> SensorData_t list option" where
  "cb_printContents p =
     (case p of
        None \<Rightarrow> Some []
      | Some cb \<Rightarrow>
          if \<not> isInitialized cb then Some []
          else if cb_isEmpty (Some cb) then Some []
          else print_loop cb (readIndex cb) (unat (count cb)))"

subsection \<open>Well-formed buffers\<close>

text \<open>
  The state of a buffer between calls, once \<^verbatim>\<open>cb_init\<close> has succeeded: the capacity is a
  power of two, the mask is one less, the block has \<open>capacity\<close> slots, both indices are
  slot numbers, at most \<open>capacity\<close> elements are stored and the write index is \<open>count\<close>
  slots past the read index.
\<close>

definition cb_valid :: "CircularBuffer_t \<Rightarrow> bool" where
  "cb_valid cb =
     (isInitialized cb \<and> isPowerOfTwo (capacity cb) \<and> indexMask cb = capacity cb - 1
      \<and> (case pBuffer cb of None \<Rightarrow> False | Some buf \<Rightarrow> length buf = unat (capacity cb))
      \<and> writeIndex cb < capacity cb \<and> readIndex cb < capacity cb
      \<and> count cb \<le> capacity cb
      \<and> writeIndex cb = (readIndex cb + count cb) AND indexMask cb)"

text \<open>The slots \<open>r\<close>, \<open>r + 1\<close>, ..., \<open>r + n - 1\<close> of a block, each index wrapped by the mask.\<close>

definition ring_slots :: "SensorData_t list \<Rightarrow> uint32_t \<Rightarrow> uint32_t \<Rightarrow> nat \<Rightarrow> SensorData_t list" where
  "ring_slots buf m r n = map (\<lambda>i. buf ! unat ((r + of_nat i) AND m)) [0..<n]"

text \<open>The elements a buffer holds, oldest first: what \<^verbatim>\<open>cb_printContents\<close> prints for a
  well-formed buffer.\<close>

definition cb_fifo :: "CircularBuffer_t \<Rightarrow> SensorData_t list" where
  "cb_fifo cb =
     (case pBuffer cb of
        None \<Rightarrow> []
      | Some buf \<Rightarrow> ring_slots buf (indexMask cb) (readIndex cb) (unat (count cb)))"

subsection \<open>Sequences of calls\<close>

text \<open>
  The loops of the test program: \<open>push_loop\<close> pushes the values of a list one after the
  other and collects the result codes; \<open>pop_loop\<close> pops \<open>n\<close> times into one output
  location and collects, for each call, the result code and what the location holds
  after the call.
\<close>

fun push_loop ::
  "int \<Rightarrow> CircularBuffer_t option \<Rightarrow> SensorData_t list
     \<Rightarrow> (int list \<times> CircularBuffer_t option) option" where
  "push_loop policy p [] = Some ([], p)"
| "push_loop policy p (v # vs) =
     (case cb_push_policy policy p v of
        None \<Rightarrow> None
      | Some (result, p') \<Rightarrow>
          (case push_loop policy p' vs of
             None \<Rightarrow> None
           | Some (results, p'') \<Rightarrow> Some (result # results, p'')))"

fun pop_loop ::
  "CircularBuffer_t option \<Rightarrow> SensorData_t option \<Rightarrow> nat
     \<Rightarrow> ((int \<times> SensorData_t option) list \<times> CircularBuffer_t option) option" where
  "pop_loop p pData 0 = Some ([], p)"
| "pop_loop p pData (Suc n) =
     (case cb_pop p pData of
        None \<Rightarrow> None
      | Some (result, p', pData') \<Rightarrow>
          (case pop_loop p' pData' n of
             None \<Rightarrow> None
           | Some (results, p'') \<Rightarrow> Some ((result, pData') # results, p'')))"

subsection \<open>The guarded entry points\<close>

text \<open>
  \<^verbatim>\<open>ENTER_CRITICAL\<close> and \<^verbatim>\<open>EXIT_CRITICAL\<close> act on the interrupt-enable flag of the
  processor, the argument \<open>irq\<close>. \<open>arm\<close> says whether \<^verbatim>\<open>__ARM_ARCH\<close> is defined: then the
  macros disable and enable interrupts, otherwise they expand to an empty statement.
\<close>

definition ENTER_CRITICAL :: "bool \<Rightarrow> bool \<Rightarrow> bool" where
  "ENTER_CRITICAL arm irq = (if arm then False else irq)"

definition EXIT_CRITICAL :: "bool \<Rightarrow> bool \<Rightarrow> bool" where
  "EXIT_CRITICAL arm irq = (if arm then True else irq)"

definition cb_push_safe ::
  "bool \<Rightarrow> bool \<Rightarrow> CircularBuffer_t option \<Rightarrow> SensorData_t
     \<Rightarrow> (int \<times> CircularBuffer_t option \<times> bool) option" where
  "cb_push_safe arm irq p data =
     (let irq1 = ENTER_CRITICAL arm irq
      in case cb_push p data of
           None \<Rightarrow> None
         | Some (result, p') \<Rightarrow> Some (result, p', EXIT_CRITICAL arm irq1))"

definition cb_pop_safe ::
  "bool \<Rightarrow> bool \<Rightarrow> CircularBuffer_t option \<Rightarrow> SensorData_t option
     \<Rightarrow> (int \<times> CircularBuffer_t option \<times> SensorData_t option \<times> bool) option" where
  "cb_pop_safe arm irq p pData =
     (let irq1 = ENTER_CRITICAL arm irq
      in case cb_pop p pData of
           None \<Rightarrow> None
         | Some (result, p', pData') \<Rightarrow> Some (result, p', pData', EXIT_CRITICAL arm irq1))"

subsection \<open>The push of \<^verbatim>\<open>10_circular_buffer_mini.c\<close>\<close>

text \<open>
  The second copy of \<^verbatim>\<open>cb_push\<close> differs in its preprocessor branch only: \<^verbatim>\<open>#else\<close>
  instead of \<^verbatim>\<open>#elif\<close>, so every policy value other than overwrite rejects. Its
  \<^verbatim>\<open>CB_ERROR_NULL\<close> has the value of \<^verbatim>\<open>CB_ERROR_NULL_POINTER\<close>.
\<close>

definition wrapIndex_mini :: "uint32_t \<Rightarrow> uint32_t \<Rightarrow> uint32_t" where
  "wrapIndex_mini index m = index AND m"

definition cb_push_mini ::
  "int \<Rightarrow> CircularBuffer_t option \<Rightarrow> SensorData_t \<Rightarrow> (int \<times> CircularBuffer_t option) option" where
  "cb_push_mini policy p data =
     (case p of
        None \<Rightarrow> Some (CB_ERROR_NULL_POINTER, None)
      | Some cb \<Rightarrow>
          if \<not> isInitialized cb then Some (CB_ERROR_NULL_POINTER, Some cb)
          else if cb_isFull (Some cb) \<and> policy \<noteq> POLICY_OVERWRITE_OLDEST
          then Some (CB_ERROR_FULL, Some cb)
          else
            let cb1 =
                  (if cb_isFull (Some cb)
                   then cb\<lparr>readIndex := wrapIndex_mini (readIndex cb + 1) (indexMask cb)\<rparr>
                   else cb\<lparr>count := count cb + 1\<rparr>)
            in (case slot_write (pBuffer cb1) (writeIndex cb1) data of
                  None \<Rightarrow> None
                | Some buf \<Rightarrow>
                    let cb2 = cb1\<lparr>pBuffer := Some buf\<rparr>
                    in Some (CB_SUCCESS,
                             Some (cb2\<lparr>writeIndex :=
                                         wrapIndex_mini (writeIndex cb2 + 1) (indexMask cb2)\<rparr>))))"

subsection \<open>Histories\<close>

text \<open>
  The calls that act on a buffer in its ready state, and a run of such calls. A pop or
  peek is given a valid output location. \<open>None\<close> is undefined behaviour, as before.
\<close>

datatype cb_op = Push SensorData_t | Pop | Peek | Clear

fun cb_apply :: "int \<Rightarrow> CircularBuffer_t \<Rightarrow> cb_op \<Rightarrow> CircularBuffer_t option" where
  "cb_apply policy cb (Push v) =
     (case cb_push_policy policy (Some cb) v of Some (result, Some cb') \<Rightarrow> Some cb' | _ \<Rightarrow> None)"
| "cb_apply policy cb Pop =
     (case cb_pop (Some cb) (Some 0) of Some (result, Some cb', pData) \<Rightarrow> Some cb' | _ \<Rightarrow> None)"
| "cb_apply policy cb Peek =
     (case cb_peek (Some cb) (Some 0) of Some (result, Some cb', pData) \<Rightarrow> Some cb' | _ \<Rightarrow> None)"
| "cb_apply policy cb Clear =
     (case cb_clear (Some cb) of (result, Some cb') \<Rightarrow> Some cb' | _ \<Rightarrow> None)"

fun cb_run :: "int \<Rightarrow> CircularBuffer_t \<Rightarrow> cb_op list \<Rightarrow> CircularBuffer_t option" where
  "cb_run policy cb [] = Some cb"
| "cb_run policy cb (x # xs) =
     (case cb_apply policy cb x of None \<Rightarrow> None | Some cb' \<Rightarrow> cb_run policy cb' xs)"

subsection \<open>Example buffers\<close>

text \<open>A zeroed structure, as a static \<^verbatim>\<open>CircularBuffer_t\<close> is before \<^verbatim>\<open>cb_init\<close>.\<close>

definition cb_zero :: CircularBuffer_t where
  "cb_zero = \<lparr>pBuffer = None, writeIndex = 0, readIndex = 0, count = 0, capacity = 0,
              indexMask = 0, isInitialized = False\<rparr>"

text \<open>A buffer of capacity 4 holding 10, 20, 30 from slot 2 on (the write index has wrapped).\<close>

definition cb_three :: CircularBuffer_t where
  "cb_three = \<lparr>pBuffer = Some [30, 0, 10, 20], writeIndex = 1, readIndex = 2, count = 3,
               capacity = 4, indexMask = 3, isInitialized = True\<rparr>"

text \<open>A full buffer of capacity 4 holding 10, 20, 30, 40 from slot 2 on.\<close>

definition cb_full :: CircularBuffer_t where
  "cb_full = \<lparr>pBuffer = Some [30, 40, 10, 20], writeIndex = 2, readIndex = 2, count = 4,
              capacity = 4, indexMask = 3, isInitialized = True\<rparr>"

text \<open>An empty buffer of capacity 4 whose slots still hold old values.\<close>

definition cb_drained :: CircularBuffer_t where
  "cb_drained = \<lparr>pBuffer = Some [30, 40, 10, 20], writeIndex = 3, readIndex = 3, count = 0,
                 capacity = 4, indexMask = 3, isInitialized = True\<rparr>"

text \<open>The buffer \<^verbatim>\<open>cb_init\<close> makes of the zeroed structure for size 4.\<close>

definition cb_fresh :: CircularBuffer_t where
  "cb_fresh = \<lparr>pBuffer = Some [0, 0, 0, 0], writeIndex = 0, readIndex = 0, count = 0,
               capacity = 4, indexMask = 3, isInitialized = True\<rparr>"

text \<open>A buffer of capacity 2 holding 5.\<close>

definition cb_one :: CircularBuffer_t where
  "cb_one = \<lparr>pBuffer = Some [5, 0], writeIndex = 1, readIndex = 0, count = 1,
             capacity = 2, indexMask = 1, isInitialized = True\<rparr>"

text \<open>A full buffer of capacity 1 holding 5.\<close>

definition cb_single :: CircularBuffer_t where
  "cb_single = \<lparr>pBuffer = Some [5], writeIndex = 0, readIndex = 0, count = 1,
                capacity = 1, indexMask = 0, isInitialized = True\<rparr>"

section \<open>Powers of two and the index mask\<close>

lemmas cb_macros =
  POLICY_OVERWRITE_OLDEST_def POLICY_REJECT_NEW_def BUFFER_FULL_POLICY_def
  CB_SUCCESS_def CB_ERROR_EMPTY_def CB_ERROR_FULL_def CB_ERROR_INVALID_SIZE_def
  CB_ERROR_NULL_POINTER_def

lemma nat_and_pred_zero_exp:
  fixes n :: nat
  assumes "0 < n" and "n AND (n - 1) = 0"
  shows "\<exists>k. n = 2 ^ k"
  using assms
proof (induction n rule: less_induct)
  case (less n)
  show ?case
  proof (cases "even n")
    case True
    then obtain m where m: "n = 2 * m" by (elim evenE)
    with less.prems have mpos: "0 < m" by simp
    have "(n - 1) div 2 = m - 1" using m mpos by simp
    moreover have "n div 2 = m" using m by simp
    ultimately have "n AND (n - 1) = 2 * (m AND (m - 1))"
      using True by (subst and_nat_rec) simp
    with less.prems have "m AND (m - 1) = 0" by simp
    moreover have "m < n" using m mpos by simp
    ultimately obtain k where "m = 2 ^ k" using less.IH mpos by blast
    then have "n = 2 ^ Suc k" using m by simp
    then show ?thesis by blast
  next
    case False
    then obtain m where m: "n = 2 * m + 1" by (elim oddE)
    have "(n - 1) div 2 = m" "n div 2 = m" using m by simp_all
    then have "n AND (n - 1) = 2 * m"
      using False by (subst and_nat_rec) simp
    with less.prems have "m = 0" by simp
    then have "n = 2 ^ 0" using m by simp
    then show ?thesis by blast
  qed
qed

lemma exp_lt_32: "k < 32 \<Longrightarrow> (2::nat) ^ k < 2 ^ 32"
  by (rule power_strict_increasing) simp_all

lemma unat_of_nat_small:
  assumes "k < 32" and "d < 2 ^ k"
  shows "unat (of_nat d :: 32 word) = d"
proof -
  have "d < 2 ^ 32" using assms exp_lt_32 [of k] by linarith
  then show ?thesis by (simp add: unat_of_nat)
qed

lemma unat_exp_small:
  assumes "k < 32"
  shows "unat ((2::32 word) ^ k) = 2 ^ k"
proof -
  have "unat ((2::32 word) ^ k) = unat (of_nat (2 ^ k) :: 32 word)" by simp
  also have "\<dots> = 2 ^ k"
    using exp_lt_32 [OF assms] by (simp only: unat_of_nat) simp
  finally show ?thesis .
qed

lemma isPowerOfTwo_exp:
  assumes "isPowerOfTwo n"
  shows "\<exists>k<32. n = 2 ^ k"
proof -
  from assms have nz: "n \<noteq> 0" and z: "n AND (n - 1) = 0"
    by (simp_all add: isPowerOfTwo_def)
  have "unat n AND unat (n - 1) = 0"
    using z by (metis unsigned_and_eq unsigned_0)
  then have "unat n AND (unat n - 1) = 0"
    using nz by (simp add: unat_minus_one)
  moreover have "0 < unat n" using nz by (simp add: unat_gt_0)
  ultimately obtain k where k: "unat n = 2 ^ k"
    using nat_and_pred_zero_exp by blast
  have "k < 32"
  proof (rule ccontr)
    assume "\<not> k < 32"
    then have "(2::nat) ^ 32 \<le> 2 ^ k" by (intro power_increasing) simp_all
    with k unsigned_less [of n, where ?'a = nat] show False by simp
  qed
  moreover have "n = 2 ^ k"
  proof -
    have "n = word_of_nat (unat n)" by simp
    also have "\<dots> = 2 ^ k" unfolding k by simp
    finally show ?thesis .
  qed
  ultimately show ?thesis by blast
qed

lemma exp_and_mask: "(2::32 word) ^ k AND mask k = 0"
  by (rule bit_eqI) (auto simp add: bit_simps)

lemma exp_isPowerOfTwo:
  assumes "k < 32"
  shows "isPowerOfTwo (2 ^ k)"
proof -
  have "(2::32 word) ^ k \<noteq> 0" using assms by simp
  moreover have "(2::32 word) ^ k AND (2 ^ k - 1) = 0"
    using exp_and_mask [of k] by (simp add: mask_eq_exp_minus_1)
  ultimately show ?thesis by (simp add: isPowerOfTwo_def)
qed

lemma isPowerOfTwo_iff: "isPowerOfTwo n \<longleftrightarrow> (\<exists>k<32. n = 2 ^ k)"
  using isPowerOfTwo_exp exp_isPowerOfTwo by blast

lemma and_mask_add_exp: "((a::32 word) + 2 ^ k) AND mask k = a AND mask k"
proof -
  have "(a + 2 ^ k) AND mask k = (a + (2 ^ k AND mask k)) AND mask k"
    by (simp only: mask_eqs)
  then show ?thesis by (simp only: exp_and_mask add_0_right)
qed

lemma and_mask_inj:
  assumes "k < 32" and "i < j" and "j < 2 ^ k"
  shows "((r::32 word) + of_nat i) AND mask k \<noteq> (r + of_nat j) AND mask k"
proof
  assume eq: "(r + of_nat i) AND mask k = (r + of_nat j) AND mask k"
  define d where "d = j - i"
  have d: "0 < d" "d < 2 ^ k" using assms by (simp_all add: d_def)
  have "(r + of_nat j) - (r + of_nat i) = (of_nat d :: 32 word)"
    using assms by (simp add: d_def)
  then have "(of_nat d :: 32 word) AND mask k
      = ((r + of_nat j) - (r + of_nat i)) AND mask k"
    by simp
  also have "\<dots> = (((r + of_nat j) AND mask k) - ((r + of_nat i) AND mask k)) AND mask k"
    by (simp only: mask_eqs)
  also have "\<dots> = 0" using eq by simp
  finally have z: "(of_nat d :: 32 word) AND mask k = 0" .
  have u: "unat (of_nat d :: 32 word) = d" using assms(1) d(2) by (rule unat_of_nat_small)
  have "(of_nat d :: 32 word) < 2 ^ k"
    using assms(1) d(2) u by (simp add: word_less_nat_alt unat_exp_small)
  then have "(of_nat d :: 32 word) AND mask k = of_nat d" by (rule less_mask_eq)
  with z have "(of_nat d :: 32 word) = 0" by simp
  with u d(1) show False by simp
qed

text \<open>What a well-formed buffer gives to the proofs below.\<close>

lemma cb_validD:
  assumes "cb_valid cb"
  obtains k buf where "k < 32" and "capacity cb = 2 ^ k" and "indexMask cb = mask k"
    and "pBuffer cb = Some buf" and "length buf = 2 ^ k"
    and "isInitialized cb"
    and "writeIndex cb < 2 ^ k" and "readIndex cb < 2 ^ k" and "count cb \<le> 2 ^ k"
    and "writeIndex cb = (readIndex cb + count cb) AND mask k"
proof -
  from assms obtain k where k: "k < 32" "capacity cb = 2 ^ k"
    using isPowerOfTwo_exp by (auto simp add: cb_valid_def)
  from assms obtain buf where buf: "pBuffer cb = Some buf" "length buf = unat (capacity cb)"
    by (auto simp add: cb_valid_def split: option.splits)
  have m: "indexMask cb = mask k"
    using assms k by (simp add: cb_valid_def mask_eq_exp_minus_1)
  have len: "length buf = 2 ^ k"
    using buf(2) k unat_exp_small [of k] by simp
  from assms have v: "isInitialized cb" "writeIndex cb < capacity cb"
    "readIndex cb < capacity cb" "count cb \<le> capacity cb"
    "writeIndex cb = (readIndex cb + count cb) AND indexMask cb"
    unfolding cb_valid_def by blast+
  show thesis
    using that [of k buf] k buf(1) m len v by simp
qed

lemma cb_validI:
  assumes "k < 32" and "capacity cb = 2 ^ k" and "indexMask cb = mask k"
    and "pBuffer cb = Some buf" and "length buf = 2 ^ k"
    and "isInitialized cb"
    and "readIndex cb < 2 ^ k" and "count cb \<le> 2 ^ k"
    and "writeIndex cb = (readIndex cb + count cb) AND mask k"
  shows "cb_valid cb"
proof -
  have "isPowerOfTwo (capacity cb)" using assms(1,2) exp_isPowerOfTwo by simp
  moreover have "indexMask cb = capacity cb - 1"
    using assms(2,3) by (simp add: mask_eq_exp_minus_1)
  moreover have "length buf = unat (capacity cb)"
    using assms(1,2,5) by (simp add: unat_exp_small)
  moreover have "writeIndex cb < capacity cb"
    using assms(1,2,9) and_mask_less' [of k "readIndex cb + count cb"] by simp
  moreover have "writeIndex cb = (readIndex cb + count cb) AND indexMask cb"
    using assms(3,9) by simp
  ultimately show ?thesis
    using assms(2,4,6,7,8) by (simp add: cb_valid_def)
qed

section \<open>Single calls on a well-formed buffer\<close>

lemma count_less_unat:
  assumes "k < 32" and "c \<le> (2::32 word) ^ k" and "c \<noteq> 2 ^ k"
  shows "unat c < 2 ^ k" and "unat (c + 1) = Suc (unat c)" and "c + 1 \<le> 2 ^ k"
proof -
  from assms(2,3) have lt: "c < 2 ^ k" by simp
  then show u: "unat c < 2 ^ k"
    using assms(1) by (simp add: word_less_nat_alt unat_exp_small)
  have "unat c + unat (1::32 word) < 2 ^ LENGTH(32)"
    using u exp_lt_32 [OF assms(1)] by simp
  then show "unat (c + 1) = Suc (unat c)"
    by (simp add: unat_add_lem [THEN iffD1])
  show "c + 1 \<le> 2 ^ k" using lt by (rule inc_le)
qed

lemma push_not_full:
  assumes "cb_valid cb" and "count cb \<noteq> capacity cb" and "pBuffer cb = Some buf"
  shows "cb_push_policy policy (Some cb) v =
           Some (CB_SUCCESS,
                 Some (cb\<lparr>pBuffer := Some (buf[unat (writeIndex cb) := v]),
                           writeIndex := (writeIndex cb + 1) AND indexMask cb,
                           count := count cb + 1\<rparr>))"
proof -
  from assms(1) obtain k buf' where k: "k < 32" "capacity cb = 2 ^ k"
    "pBuffer cb = Some buf'" "length buf' = 2 ^ k" "isInitialized cb" "writeIndex cb < 2 ^ k"
    by (rule cb_validD)
  have "unat (writeIndex cb) < length buf"
    using k assms(3) by (simp add: word_less_nat_alt unat_exp_small)
  then show ?thesis
    using assms(2,3) k(5)
    by (simp add: cb_push_policy_def cb_isFull_def slot_write_def wrapIndex_def)
qed

lemma push_not_full_valid:
  assumes "cb_valid cb" and "count cb \<noteq> capacity cb" and "pBuffer cb = Some buf"
  shows "cb_valid (cb\<lparr>pBuffer := Some (buf[unat (writeIndex cb) := v]),
                      writeIndex := (writeIndex cb + 1) AND indexMask cb,
                      count := count cb + 1\<rparr>)"
proof -
  from assms(1) obtain k buf' where k: "k < 32" "capacity cb = 2 ^ k" "indexMask cb = mask k"
    "pBuffer cb = Some buf'" "length buf' = 2 ^ k" "isInitialized cb"
    "writeIndex cb < 2 ^ k" "readIndex cb < 2 ^ k" "count cb \<le> 2 ^ k"
    "writeIndex cb = (readIndex cb + count cb) AND mask k"
    by (rule cb_validD)
  have c: "count cb + 1 \<le> 2 ^ k"
    using count_less_unat(3) [of k "count cb"] k assms(2) by simp
  have "((readIndex cb + count cb) AND mask k) + 1 AND mask k
          = (readIndex cb + count cb + 1) AND mask k"
    by (simp only: mask_eqs)
  then have w: "(writeIndex cb + 1) AND mask k = (readIndex cb + (count cb + 1)) AND mask k"
    using k(10) by (simp add: add.assoc)
  show ?thesis
    by (rule cb_validI [of k _ "buf[unat (writeIndex cb) := v]"])
       (use k assms(3) c w in simp_all)
qed

lemma pop_not_empty:
  assumes "cb_valid cb" and "count cb \<noteq> 0" and "pBuffer cb = Some buf"
  shows "cb_pop (Some cb) (Some old) =
           Some (CB_SUCCESS,
                 Some (cb\<lparr>readIndex := (readIndex cb + 1) AND indexMask cb,
                           count := count cb - 1\<rparr>),
                 Some (buf ! unat (readIndex cb)))"
proof -
  from assms(1) obtain k buf' where k: "k < 32" "capacity cb = 2 ^ k"
    "pBuffer cb = Some buf'" "length buf' = 2 ^ k" "isInitialized cb" "readIndex cb < 2 ^ k"
    by (rule cb_validD)
  have "unat (readIndex cb) < length buf"
    using k assms(3) by (simp add: word_less_nat_alt unat_exp_small)
  then show ?thesis
    using assms(2,3) k(5)
    by (simp add: cb_pop_def cb_isEmpty_def slot_read_def wrapIndex_def)
qed

lemma pop_not_empty_valid:
  assumes "cb_valid cb" and "count cb \<noteq> 0"
  shows "cb_valid (cb\<lparr>readIndex := (readIndex cb + 1) AND indexMask cb,
                      count := count cb - 1\<rparr>)"
proof -
  from assms(1) obtain k buf where k: "k < 32" "capacity cb = 2 ^ k" "indexMask cb = mask k"
    "pBuffer cb = Some buf" "length buf = 2 ^ k" "isInitialized cb"
    "writeIndex cb < 2 ^ k" "readIndex cb < 2 ^ k" "count cb \<le> 2 ^ k"
    "writeIndex cb = (readIndex cb + count cb) AND mask k"
    by (rule cb_validD)
  have c: "count cb - 1 \<le> 2 ^ k"
    using k(9) assms(2) by (simp add: word_le_nat_alt unat_minus_one)
  have r: "(readIndex cb + 1) AND mask k < 2 ^ k"
    using k(1) and_mask_less' [of k "readIndex cb + 1"] by simp
  have "((readIndex cb + 1) AND mask k) + (count cb - 1) AND mask k
          = (readIndex cb + 1 + (count cb - 1)) AND mask k"
    by (simp only: mask_eqs)
  then have w: "writeIndex cb = ((readIndex cb + 1) AND mask k) + (count cb - 1) AND mask k"
    using k(10) by simp
  show ?thesis
    by (rule cb_validI [of k _ buf]) (use k c r w in simp_all)
qed

lemma push_full_overwrite:
  assumes "cb_valid cb" and "count cb = capacity cb" and "pBuffer cb = Some buf"
  shows "cb_push_policy POLICY_OVERWRITE_OLDEST (Some cb) v =
           Some (CB_SUCCESS,
                 Some (cb\<lparr>pBuffer := Some (buf[unat (writeIndex cb) := v]),
                           writeIndex := (writeIndex cb + 1) AND indexMask cb,
                           readIndex := (readIndex cb + 1) AND indexMask cb\<rparr>))"
proof -
  from assms(1) obtain k buf' where k: "k < 32" "capacity cb = 2 ^ k"
    "pBuffer cb = Some buf'" "length buf' = 2 ^ k" "isInitialized cb" "writeIndex cb < 2 ^ k"
    by (rule cb_validD)
  have "unat (writeIndex cb) < length buf"
    using k assms(3) by (simp add: word_less_nat_alt unat_exp_small)
  then show ?thesis
    using assms(2,3) k(5)
    by (simp add: cb_push_policy_def cb_isFull_def slot_write_def wrapIndex_def cb_macros)
qed

lemma full_write_is_read:
  assumes "cb_valid cb" and "count cb = capacity cb"
  shows "writeIndex cb = readIndex cb"
proof -
  from assms(1) obtain k where k: "k < 32" "capacity cb = 2 ^ k"
    "readIndex cb < 2 ^ k" "writeIndex cb = (readIndex cb + count cb) AND mask k"
    by (rule cb_validD)
  have "writeIndex cb = readIndex cb AND mask k"
    using k(2,4) assms(2) by (simp add: and_mask_add_exp)
  then show ?thesis using k(3) by (simp add: less_mask_eq)
qed

lemma push_full_overwrite_valid:
  assumes "cb_valid cb" and "count cb = capacity cb" and "pBuffer cb = Some buf"
  shows "cb_valid (cb\<lparr>pBuffer := Some (buf[unat (writeIndex cb) := v]),
                      writeIndex := (writeIndex cb + 1) AND indexMask cb,
                      readIndex := (readIndex cb + 1) AND indexMask cb\<rparr>)"
proof -
  from assms(1) obtain k buf' where k: "k < 32" "capacity cb = 2 ^ k" "indexMask cb = mask k"
    "pBuffer cb = Some buf'" "length buf' = 2 ^ k" "isInitialized cb"
    "writeIndex cb < 2 ^ k" "readIndex cb < 2 ^ k" "count cb \<le> 2 ^ k"
    "writeIndex cb = (readIndex cb + count cb) AND mask k"
    by (rule cb_validD)
  have wr: "writeIndex cb = readIndex cb" using assms(1,2) by (rule full_write_is_read)
  have r: "(readIndex cb + 1) AND mask k < 2 ^ k"
    using k(1) and_mask_less' [of k "readIndex cb + 1"] by simp
  have "((readIndex cb + 1) AND mask k) + 2 ^ k AND mask k = (readIndex cb + 1) AND mask k"
    by (simp add: and_mask_add_exp)
  then have w: "(writeIndex cb + 1) AND mask k
      = ((readIndex cb + 1) AND mask k) + count cb AND mask k"
    using wr assms(2) k(2) by simp
  show ?thesis
    by (rule cb_validI [of k _ "buf[unat (writeIndex cb) := v]"])
       (use k assms(3) r w in simp_all)
qed

lemma clear_valid:
  assumes "cb_valid cb"
  shows "cb_valid (cb\<lparr>writeIndex := 0, readIndex := 0, count := 0\<rparr>)"
proof -
  from assms(1) obtain k buf where k: "k < 32" "capacity cb = 2 ^ k" "indexMask cb = mask k"
    "pBuffer cb = Some buf" "length buf = 2 ^ k" "isInitialized cb"
    by (rule cb_validD)
  have "(0::32 word) < 2 ^ k" using k(1) by (simp add: word_less_nat_alt unat_exp_small)
  then show ?thesis
    by (intro cb_validI [of k _ buf]) (use k in simp_all)
qed

lemma init_valid:
  assumes "isPowerOfTwo sz"
  shows "cb_init (Some cb) sz True =
           (CB_SUCCESS,
            Some (cb\<lparr>pBuffer := Some (replicate (unat sz) 0), writeIndex := 0, readIndex := 0,
                      count := 0, capacity := sz, indexMask := sz - 1,
                      isInitialized := True\<rparr>))"
    and "cb_valid (cb\<lparr>pBuffer := Some (replicate (unat sz) 0), writeIndex := 0,
                      readIndex := 0, count := 0, capacity := sz, indexMask := sz - 1,
                      isInitialized := True\<rparr>)"
proof -
  from assms have "sz \<noteq> 0" by (simp add: isPowerOfTwo_def)
  then show "cb_init (Some cb) sz True =
           (CB_SUCCESS,
            Some (cb\<lparr>pBuffer := Some (replicate (unat sz) 0), writeIndex := 0, readIndex := 0,
                      count := 0, capacity := sz, indexMask := sz - 1,
                      isInitialized := True\<rparr>))"
    using assms by (simp add: cb_init_def)
  from assms obtain k where k: "k < 32" "sz = 2 ^ k" using isPowerOfTwo_exp by blast
  have "(0::32 word) < 2 ^ k" using k(1) by (simp add: word_less_nat_alt unat_exp_small)
  then show "cb_valid (cb\<lparr>pBuffer := Some (replicate (unat sz) 0), writeIndex := 0,
                      readIndex := 0, count := 0, capacity := sz, indexMask := sz - 1,
                      isInitialized := True\<rparr>)"
    by (intro cb_validI [of k _ "replicate (unat sz) 0"])
       (use k in \<open>simp_all add: unat_exp_small mask_eq_exp_minus_1\<close>)
qed

section \<open>The stored sequence\<close>

lemma length_ring_slots: "length (ring_slots buf m r n) = n"
  by (simp add: ring_slots_def)

lemma ring_slots_snoc:
  "ring_slots buf m r (Suc n) = ring_slots buf m r n @ [buf ! unat ((r + of_nat n) AND m)]"
  by (simp add: ring_slots_def)

lemma ring_slots_update:
  assumes "\<And>i. i < n \<Longrightarrow> j \<noteq> unat ((r + of_nat i) AND m)"
  shows "ring_slots (buf[j := v]) m r n = ring_slots buf m r n"
  using assms by (auto simp add: ring_slots_def)

lemma ring_slots_Cons:
  assumes "r < 2 ^ k"
  shows "ring_slots buf (mask k) r (Suc n)
           = buf ! unat r # ring_slots buf (mask k) ((r + 1) AND mask k) n"
proof -
  have hd: "r AND mask k = r" using assms by (rule less_mask_eq)
  have tl: "(r + of_nat (Suc i)) AND mask k = ((r + 1) AND mask k) + of_nat i AND mask k" for i
  proof -
    have "((r + 1) AND mask k) + of_nat i AND mask k = (r + 1 + of_nat i) AND mask k"
      by (simp only: mask_eqs)
    moreover have "r + 1 + of_nat i = r + of_nat (Suc i)" by simp
    ultimately show ?thesis by (simp only:)
  qed
  show ?thesis
    unfolding ring_slots_def map_upt_Suc by (simp only: tl) (simp add: hd)
qed

lemma print_loop_ring_slots:
  assumes "k < 32" and "indexMask cb = mask k" and "pBuffer cb = Some buf"
    and "length buf = 2 ^ k" and "idx < 2 ^ k"
  shows "print_loop cb idx n = Some (ring_slots buf (mask k) idx n)"
  using assms(5)
proof (induction n arbitrary: idx)
  case 0
  show ?case by (simp add: ring_slots_def)
next
  case (Suc n)
  have "unat idx < length buf"
    using Suc.prems assms(1,4) by (simp add: word_less_nat_alt unat_exp_small)
  then have rd: "slot_read (pBuffer cb) idx = Some (buf ! unat idx)"
    using assms(3) by (simp add: slot_read_def)
  have "(idx + 1) AND mask k < 2 ^ k"
    using assms(1) and_mask_less' [of k "idx + 1"] by simp
  then have "print_loop cb ((idx + 1) AND mask k) n
      = Some (ring_slots buf (mask k) ((idx + 1) AND mask k) n)"
    by (rule Suc.IH)
  then show ?case
    using rd assms(2) ring_slots_Cons [OF Suc.prems, of buf n]
    by (simp add: wrapIndex_def)
qed

lemma length_cb_fifo: "cb_valid cb \<Longrightarrow> length (cb_fifo cb) = unat (count cb)"
  by (auto simp add: cb_fifo_def cb_valid_def length_ring_slots split: option.splits)

lemma printContents_fifo:
  assumes "cb_valid cb"
  shows "cb_printContents (Some cb) = Some (cb_fifo cb)"
proof -
  from assms(1) obtain k buf where k: "k < 32" "indexMask cb = mask k"
    "pBuffer cb = Some buf" "length buf = 2 ^ k" "isInitialized cb" "readIndex cb < 2 ^ k"
    by (rule cb_validD)
  have "print_loop cb (readIndex cb) (unat (count cb))
      = Some (ring_slots buf (mask k) (readIndex cb) (unat (count cb)))"
    using k(1,2,3,4,6) by (rule print_loop_ring_slots)
  then show ?thesis
    using k(2,3,5)
    by (simp add: cb_printContents_def cb_isEmpty_def cb_fifo_def ring_slots_def)
qed

lemma fifo_push:
  assumes "cb_valid cb" and "count cb \<noteq> capacity cb" and "pBuffer cb = Some buf"
  shows "cb_fifo (cb\<lparr>pBuffer := Some (buf[unat (writeIndex cb) := v]),
                     writeIndex := (writeIndex cb + 1) AND indexMask cb,
                     count := count cb + 1\<rparr>) = cb_fifo cb @ [v]"
proof -
  from assms(1) obtain k buf' where k: "k < 32" "capacity cb = 2 ^ k" "indexMask cb = mask k"
    "pBuffer cb = Some buf'" "length buf' = 2 ^ k" "isInitialized cb"
    "writeIndex cb < 2 ^ k" "readIndex cb < 2 ^ k" "count cb \<le> 2 ^ k"
    "writeIndex cb = (readIndex cb + count cb) AND mask k"
    by (rule cb_validD)
  let ?n = "unat (count cb)" and ?r = "readIndex cb" and ?w = "writeIndex cb"
  have n: "?n < 2 ^ k" "unat (count cb + 1) = Suc ?n"
    using count_less_unat [of k "count cb"] k(1,2,9) assms(2) by simp_all
  have w: "(?r + of_nat ?n) AND mask k = ?w" using k(10) by simp
  have len: "unat ?w < length buf"
    using k(1,4,5,7) assms(3) by (simp add: word_less_nat_alt unat_exp_small)
  have other: "unat ?w \<noteq> unat ((?r + of_nat i) AND mask k)" if "i < ?n" for i
    using and_mask_inj [OF k(1) that n(1), of ?r] w by (simp add: word_unat_eq_iff)
  have "ring_slots (buf[unat ?w := v]) (mask k) ?r (Suc ?n)
      = ring_slots (buf[unat ?w := v]) (mask k) ?r ?n @ [v]"
    using len w by (simp add: ring_slots_snoc)
  also have "ring_slots (buf[unat ?w := v]) (mask k) ?r ?n = ring_slots buf (mask k) ?r ?n"
    using other by (rule ring_slots_update)
  finally show ?thesis
    using assms(3) k(3) n(2) by (simp add: cb_fifo_def)
qed

lemma fifo_pop:
  assumes "cb_valid cb" and "count cb \<noteq> 0" and "pBuffer cb = Some buf"
  shows "cb_fifo cb = buf ! unat (readIndex cb)
           # cb_fifo (cb\<lparr>readIndex := (readIndex cb + 1) AND indexMask cb,
                          count := count cb - 1\<rparr>)"
proof -
  from assms(1) obtain k where k: "k < 32" "indexMask cb = mask k" "readIndex cb < 2 ^ k"
    by (rule cb_validD)
  have "0 < unat (count cb)" using assms(2) by (simp add: unat_gt_0)
  then have "unat (count cb) = Suc (unat (count cb - 1))"
    using assms(2) by (simp add: unat_minus_one)
  then show ?thesis
    using assms(3) k(2) ring_slots_Cons [OF k(3), of buf "unat (count cb - 1)"]
    by (simp add: cb_fifo_def)
qed

section \<open>First in, first out\<close>

lemma push_loop_fifo:
  assumes "cb_valid cb" and "unat (count cb) + length vs \<le> unat (capacity cb)"
  shows "\<exists>cb'. push_loop policy (Some cb) vs = Some (replicate (length vs) CB_SUCCESS, Some cb')
           \<and> cb_valid cb' \<and> capacity cb' = capacity cb \<and> cb_fifo cb' = cb_fifo cb @ vs"
  using assms
proof (induction vs arbitrary: cb)
  case Nil
  then show ?case by simp
next
  case (Cons v vs)
  from Cons.prems(1) obtain buf where buf: "pBuffer cb = Some buf" by (rule cb_validD)
  have nf: "count cb \<noteq> capacity cb" using Cons.prems(2) by auto
  define cb1 where "cb1 = cb\<lparr>pBuffer := Some (buf[unat (writeIndex cb) := v]),
    writeIndex := (writeIndex cb + 1) AND indexMask cb, count := count cb + 1\<rparr>"
  have step: "cb_push_policy policy (Some cb) v = Some (CB_SUCCESS, Some cb1)"
    unfolding cb1_def using Cons.prems(1) nf buf by (rule push_not_full)
  have v1: "cb_valid cb1"
    unfolding cb1_def using Cons.prems(1) nf buf by (rule push_not_full_valid)
  have f1: "cb_fifo cb1 = cb_fifo cb @ [v]"
    unfolding cb1_def using Cons.prems(1) nf buf by (rule fifo_push)
  have cap1: "capacity cb1 = capacity cb" by (simp add: cb1_def)
  have "unat (count cb1) = Suc (unat (count cb))"
    using length_cb_fifo [OF v1] length_cb_fifo [OF Cons.prems(1)] f1 by simp
  then have "unat (count cb1) + length vs \<le> unat (capacity cb1)"
    using Cons.prems(2) cap1 by simp
  with v1 obtain cb' where
    "push_loop policy (Some cb1) vs = Some (replicate (length vs) CB_SUCCESS, Some cb')"
    "cb_valid cb'" "capacity cb' = capacity cb1" "cb_fifo cb' = cb_fifo cb1 @ vs"
    using Cons.IH by blast
  then show ?case using step f1 cap1 by simp
qed

lemma pop_loop_fifo:
  assumes "cb_valid cb" and "n \<le> unat (count cb)"
  shows "\<exists>cb'. pop_loop (Some cb) (Some old) n
             = Some (map (\<lambda>v. (CB_SUCCESS, Some v)) (take n (cb_fifo cb)), Some cb')
           \<and> cb_valid cb' \<and> capacity cb' = capacity cb \<and> cb_fifo cb' = drop n (cb_fifo cb)"
  using assms
proof (induction n arbitrary: cb old)
  case 0
  then show ?case by simp
next
  case (Suc n)
  from Suc.prems(1) obtain buf where buf: "pBuffer cb = Some buf" by (rule cb_validD)
  have ne: "count cb \<noteq> 0" using Suc.prems(2) by auto
  define cb1 where "cb1 = cb\<lparr>readIndex := (readIndex cb + 1) AND indexMask cb,
    count := count cb - 1\<rparr>"
  define x where "x = buf ! unat (readIndex cb)"
  have step: "cb_pop (Some cb) (Some old) = Some (CB_SUCCESS, Some cb1, Some x)"
    unfolding cb1_def x_def using Suc.prems(1) ne buf by (rule pop_not_empty)
  have v1: "cb_valid cb1"
    unfolding cb1_def using Suc.prems(1) ne by (rule pop_not_empty_valid)
  have f: "cb_fifo cb = x # cb_fifo cb1"
    unfolding cb1_def x_def using Suc.prems(1) ne buf by (rule fifo_pop)
  have cap1: "capacity cb1 = capacity cb" by (simp add: cb1_def)
  have "unat (count cb) = Suc (unat (count cb1))"
    using length_cb_fifo [OF v1] length_cb_fifo [OF Suc.prems(1)] f by simp
  then have "n \<le> unat (count cb1)" using Suc.prems(2) by simp
  with v1 obtain cb' where
    "pop_loop (Some cb1) (Some x) n
       = Some (map (\<lambda>v. (CB_SUCCESS, Some v)) (take n (cb_fifo cb1)), Some cb')"
    "cb_valid cb'" "capacity cb' = capacity cb1" "cb_fifo cb' = drop n (cb_fifo cb1)"
    using Suc.IH by blast
  then show ?case using step f cap1 by simp
qed

lemma cb_push_mini_eq:
  assumes "policy = POLICY_OVERWRITE_OLDEST \<or> policy = POLICY_REJECT_NEW"
  shows "cb_push_mini policy p v = cb_push_policy policy p v"
  using assms
  by (auto simp add: cb_push_mini_def cb_push_policy_def wrapIndex_mini_def wrapIndex_def
      cb_macros split: option.splits)

section \<open>Construction\<close>

text \<open>
  C5, as the code has it. Given a structure to fill and a successful allocation,
  \<^verbatim>\<open>cb_init\<close> succeeds exactly when \<open>isPowerOfTwo\<close> accepts the size, that is when the size
  is \<open>2 ^ k\<close> for some \<open>k < 32\<close>; the mask is then \<open>size - 1\<close>, both indices and the count
  are 0 and the block has \<open>size\<close> zeroed slots. When the allocation fails the call
  returns \<^verbatim>\<open>CB_ERROR_NULL_POINTER\<close> although the size is a power of two. A size that
  is 0 or not a power of two gives \<^verbatim>\<open>CB_ERROR_INVALID_SIZE\<close> whatever the allocator
  would do, and the structure is returned as it was.
\<close>

theorem cb_init_power_of_two:
  "(fst (cb_init (Some cb) sz True) = CB_SUCCESS \<longleftrightarrow> isPowerOfTwo sz)
   \<and> (isPowerOfTwo sz \<longleftrightarrow> (\<exists>k<32. sz = 2 ^ k))
   \<and> (isPowerOfTwo sz \<longrightarrow>
        (\<exists>cb'. cb_init (Some cb) sz True = (CB_SUCCESS, Some cb')
           \<and> capacity cb' = sz \<and> indexMask cb' = sz - 1
           \<and> writeIndex cb' = 0 \<and> readIndex cb' = 0 \<and> count cb' = 0
           \<and> pBuffer cb' = Some (replicate (unat sz) 0) \<and> isInitialized cb')
        \<and> fst (cb_init (Some cb) sz False) = CB_ERROR_NULL_POINTER)
   \<and> (\<not> isPowerOfTwo sz \<longrightarrow> cb_init (Some cb) sz alloc = (CB_ERROR_INVALID_SIZE, Some cb))"
proof -
  have a: "fst (cb_init (Some cb) sz True) = CB_SUCCESS \<longleftrightarrow> isPowerOfTwo sz"
    by (simp add: cb_init_def cb_macros isPowerOfTwo_def)
  have b: "\<exists>cb'. cb_init (Some cb) sz True = (CB_SUCCESS, Some cb')
           \<and> capacity cb' = sz \<and> indexMask cb' = sz - 1
           \<and> writeIndex cb' = 0 \<and> readIndex cb' = 0 \<and> count cb' = 0
           \<and> pBuffer cb' = Some (replicate (unat sz) 0) \<and> isInitialized cb'"
    if "isPowerOfTwo sz"
    using init_valid(1) [OF that, of cb] by simp
  have c: "fst (cb_init (Some cb) sz False) = CB_ERROR_NULL_POINTER" if "isPowerOfTwo sz"
    using that by (simp add: cb_init_def isPowerOfTwo_def)
  have d: "cb_init (Some cb) sz alloc = (CB_ERROR_INVALID_SIZE, Some cb)"
    if "\<not> isPowerOfTwo sz"
    using that by (simp add: cb_init_def)
  show ?thesis using a b c d isPowerOfTwo_iff [of sz] by blast
qed

theorem cb_init_power_of_two_witness:
  "isPowerOfTwo 4 \<and> cb_init (Some cb_zero) 4 True = (CB_SUCCESS, Some cb_fresh)
   \<and> fst (cb_init (Some cb_zero) 4 False) = CB_ERROR_NULL_POINTER
   \<and> \<not> isPowerOfTwo 6 \<and> cb_init (Some cb_zero) 6 True = (CB_ERROR_INVALID_SIZE, Some cb_zero)"
proof -
  have p4: "isPowerOfTwo 4" and p6: "\<not> isPowerOfTwo 6"
    by (simp_all add: isPowerOfTwo_def)
  have e: "cb_init (Some cb_zero) 4 True = (CB_SUCCESS, Some cb_fresh)"
    by code_simp
  show ?thesis
    using cb_init_power_of_two [of cb_zero 4 True] cb_init_power_of_two [of cb_zero 6 True]
      p4 p6 e
    by blast
qed

text \<open>
  C5 as stated fails: with size 8, a power of two, and an allocation that fails,
  \<^verbatim>\<open>cb_init\<close> does not succeed.
\<close>

theorem cb_init_alloc_failure_counterexample:
  "isPowerOfTwo 8
   \<and> cb_init (Some cb_zero) 8 False
       = (CB_ERROR_NULL_POINTER,
          Some \<lparr>pBuffer = None, writeIndex = 0, readIndex = 0, count = 0, capacity = 8,
                indexMask = 7, isInitialized = False\<rparr>)
   \<and> CB_ERROR_NULL_POINTER \<noteq> CB_SUCCESS"
  by code_simp

section \<open>Index range\<close>

lemma peek_valid:
  assumes "cb_valid cb"
  shows "\<exists>r d. cb_peek (Some cb) (Some old) = Some (r, Some cb, d)"
proof -
  from assms(1) obtain k buf where k: "k < 32" "pBuffer cb = Some buf" "length buf = 2 ^ k"
    "isInitialized cb" "readIndex cb < 2 ^ k"
    by (rule cb_validD)
  have "unat (readIndex cb) < length buf"
    using k by (simp add: word_less_nat_alt unat_exp_small)
  then show ?thesis
    using k(2,4) by (simp add: cb_peek_def slot_read_def)
qed

lemma cb_apply_valid:
  assumes "cb_valid cb"
    and "policy = POLICY_OVERWRITE_OLDEST \<or> policy = POLICY_REJECT_NEW"
  shows "\<exists>cb'. cb_apply policy cb x = Some cb' \<and> cb_valid cb'
           \<and> capacity cb' = capacity cb \<and> indexMask cb' = indexMask cb
           \<and> (x \<noteq> Clear \<longrightarrow>
                (writeIndex cb' = writeIndex cb
                 \<or> writeIndex cb' = (writeIndex cb + 1) AND indexMask cb)
                \<and> (readIndex cb' = readIndex cb
                   \<or> readIndex cb' = (readIndex cb + 1) AND indexMask cb))
           \<and> (x = Clear \<longrightarrow> writeIndex cb' = 0 \<and> readIndex cb' = 0)"
proof -
  from assms(1) obtain buf where buf: "pBuffer cb = Some buf" and ini: "isInitialized cb"
    by (rule cb_validD)
  show ?thesis
  proof (cases x)
    case (Push v)
    show ?thesis
    proof (cases "count cb = capacity cb")
      case False
      with assms(1) buf show ?thesis
        using push_not_full [of cb buf policy v] push_not_full_valid [of cb buf v] Push
        by simp
    next
      case True
      show ?thesis
      proof (cases "policy = POLICY_REJECT_NEW")
        case True
        then have "cb_push_policy policy (Some cb) v = Some (CB_ERROR_FULL, Some cb)"
          using ini \<open>count cb = capacity cb\<close>
          by (simp add: cb_push_policy_def cb_isFull_def)
        then show ?thesis using Push assms(1) by simp
      next
        case False
        then have "policy = POLICY_OVERWRITE_OLDEST" using assms(2) by simp
        with assms(1) True buf show ?thesis
          using push_full_overwrite [of cb buf v] push_full_overwrite_valid [of cb buf v] Push
          by simp
      qed
    qed
  next
    case Pop
    show ?thesis
    proof (cases "count cb = 0")
      case True
      then have "cb_pop (Some cb) (Some 0) = Some (CB_ERROR_EMPTY, Some cb, Some 0)"
        using ini by (simp add: cb_pop_def cb_isEmpty_def)
      then show ?thesis using Pop assms(1) by simp
    next
      case False
      with assms(1) buf show ?thesis
        using pop_not_empty [of cb buf 0] pop_not_empty_valid [of cb] Pop
        by simp
    qed
  next
    case Peek
    then show ?thesis using peek_valid [OF assms(1), of 0] assms(1) by auto
  next
    case Clear
    then show ?thesis using clear_valid [OF assms(1)] ini by (simp add: cb_clear_def)
  qed
qed

lemma cb_run_valid:
  assumes "cb_valid cb"
    and "policy = POLICY_OVERWRITE_OLDEST \<or> policy = POLICY_REJECT_NEW"
  shows "\<exists>cb'. cb_run policy cb xs = Some cb' \<and> cb_valid cb' \<and> capacity cb' = capacity cb"
  using assms(1)
proof (induction xs arbitrary: cb)
  case Nil
  then show ?case by simp
next
  case (Cons x xs)
  from cb_apply_valid [OF Cons.prems assms(2), of x] obtain cb1 where
    cb1: "cb_apply policy cb x = Some cb1" "cb_valid cb1" "capacity cb1 = capacity cb"
    by blast
  from Cons.IH [OF cb1(2)] obtain cb' where
    "cb_run policy cb1 xs = Some cb'" "cb_valid cb'" "capacity cb' = capacity cb1"
    by blast
  then show ?case using cb1(1,3) by simp
qed

lemma cb_valid_reachable:
  assumes "cb_init (Some cb0) sz alloc = (CB_SUCCESS, Some cb1)"
    and "policy = POLICY_OVERWRITE_OLDEST \<or> policy = POLICY_REJECT_NEW"
    and "cb_run policy cb1 xs = Some cb"
  shows "cb_valid cb"
proof -
  have p: "isPowerOfTwo sz"
    using assms(1) by (auto simp add: cb_init_def cb_macros split: if_splits)
  have a: "alloc"
    using assms(1) p by (auto simp add: cb_init_def cb_macros Let_def split: if_splits)
  have "cb_valid cb1"
    using assms(1) a init_valid [OF p, of cb0] by auto
  then show ?thesis
    using cb_run_valid [OF _ assms(2), of cb1 xs] assms(3) by auto
qed

text \<open>
  C6, as the code has it. Take the buffer a successful \<^verbatim>\<open>cb_init\<close> returns and any
  finite run of push, pop, peek and clear calls, under either policy. The run never
  leaves defined behaviour; after it \<open>capacity\<close> is the size given to \<^verbatim>\<open>cb_init\<close> and
  \<open>writeIndex\<close> and \<open>readIndex\<close> are below it. From the state reached, a further push,
  pop or peek leaves each index alone or moves it to \<open>(index + 1) AND indexMask\<close>, and a
  further clear sets both indices to 0.
\<close>

theorem indices_stay_in_range:
  assumes "cb_init (Some cb0) sz alloc = (CB_SUCCESS, Some cb1)"
    and "policy = POLICY_OVERWRITE_OLDEST \<or> policy = POLICY_REJECT_NEW"
  shows "\<exists>cb. cb_run policy cb1 xs = Some cb \<and> capacity cb = sz
           \<and> writeIndex cb < capacity cb \<and> readIndex cb < capacity cb
           \<and> (\<forall>x. \<exists>cb'. cb_apply policy cb x = Some cb'
                 \<and> (x \<noteq> Clear \<longrightarrow>
                      (writeIndex cb' = writeIndex cb
                       \<or> writeIndex cb' = (writeIndex cb + 1) AND indexMask cb)
                      \<and> (readIndex cb' = readIndex cb
                         \<or> readIndex cb' = (readIndex cb + 1) AND indexMask cb))
                 \<and> (x = Clear \<longrightarrow> writeIndex cb' = 0 \<and> readIndex cb' = 0))"
proof -
  have p: "isPowerOfTwo sz"
    using assms(1) by (auto simp add: cb_init_def cb_macros split: if_splits)
  have a: "alloc"
    using assms(1) p by (auto simp add: cb_init_def cb_macros Let_def split: if_splits)
  have "cb_valid cb1" "capacity cb1 = sz"
    using assms(1) a init_valid [OF p, of cb0] by auto
  with cb_run_valid [OF _ assms(2), of cb1 xs] obtain cb where
    cb: "cb_run policy cb1 xs = Some cb" "cb_valid cb" "capacity cb = sz"
    by auto
  have "writeIndex cb < capacity cb" "readIndex cb < capacity cb"
    using cb(2) unfolding cb_valid_def by blast+
  then show ?thesis
    using cb cb_apply_valid [OF cb(2) assms(2)] by blast
qed

theorem indices_stay_in_range_witness:
  "cb_init (Some cb_zero) 4 True = (CB_SUCCESS, Some cb_fresh)
   \<and> cb_run POLICY_OVERWRITE_OLDEST cb_fresh
        [Push 0, Push 0, Pop, Pop, Push 10, Push 20, Push 30] = Some cb_three
   \<and> capacity cb_three = 4 \<and> writeIndex cb_three < capacity cb_three
   \<and> readIndex cb_three < capacity cb_three
   \<and> (\<exists>cb'. cb_apply POLICY_OVERWRITE_OLDEST cb_three (Push 40) = Some cb'
         \<and> writeIndex cb' = (writeIndex cb_three + 1) AND indexMask cb_three
         \<and> readIndex cb' = readIndex cb_three)"
proof -
  have h: "cb_init (Some cb_zero) 4 True = (CB_SUCCESS, Some cb_fresh)"
    "POLICY_OVERWRITE_OLDEST = POLICY_OVERWRITE_OLDEST \<or> POLICY_OVERWRITE_OLDEST = POLICY_REJECT_NEW"
    by code_simp+
  have r: "cb_run POLICY_OVERWRITE_OLDEST cb_fresh
        [Push 0, Push 0, Pop, Pop, Push 10, Push 20, Push 30] = Some cb_three"
    by code_simp
  have e: "cb_apply POLICY_OVERWRITE_OLDEST cb_three (Push 40)
      = Some \<lparr>pBuffer = Some [30, 40, 10, 20], writeIndex = 2, readIndex = 2, count = 4,
              capacity = 4, indexMask = 3, isInitialized = True\<rparr>"
    by code_simp
  show ?thesis
    using h(1) r e
      indices_stay_in_range [OF h, of "[Push 0, Push 0, Pop, Pop, Push 10, Push 20, Push 30]"]
    by (simp add: cb_three_def)
qed

text \<open>
  C6 as stated fails at clear: the buffer below is reached from \<^verbatim>\<open>cb_init\<close> by pushes and
  pops, its indices are 1 and 2, and \<^verbatim>\<open>cb_clear\<close> moves both to 0, which is neither the
  old index nor the old index advanced by one.
\<close>

theorem clear_index_jump_counterexample:
  "cb_init (Some cb_zero) 4 True = (CB_SUCCESS, Some cb_fresh)
   \<and> cb_run BUFFER_FULL_POLICY cb_fresh
        [Push 0, Push 0, Pop, Pop, Push 10, Push 20, Push 30] = Some cb_three
   \<and> cb_apply BUFFER_FULL_POLICY cb_three Clear
       = Some \<lparr>pBuffer = Some [30, 0, 10, 20], writeIndex = 0, readIndex = 0, count = 0,
               capacity = 4, indexMask = 3, isInitialized = True\<rparr>
   \<and> writeIndex cb_three = 1 \<and> (writeIndex cb_three + 1) AND indexMask cb_three = 2
   \<and> readIndex cb_three = 2 \<and> (readIndex cb_three + 1) AND indexMask cb_three = 3"
  by code_simp

section \<open>Ordering\<close>

text \<open>
  C1, as the code has it. On a well-formed buffer (every buffer reached from a
  successful \<^verbatim>\<open>cb_init\<close> is one, see \<open>cb_valid_reachable\<close>) that is empty, wherever
  its indices stand, pushing \<open>N \<le> capacity\<close> values succeeds each time, under either policy, and
  the \<open>N\<close> pops that follow succeed and return the values in the order they were pushed.
\<close>

theorem fifo_order_from_empty:
  assumes "cb_valid cb" and "count cb = 0" and "length vs \<le> unat (capacity cb)"
  shows "\<exists>cb1 cb2.
           push_loop policy (Some cb) vs = Some (replicate (length vs) CB_SUCCESS, Some cb1)
           \<and> pop_loop (Some cb1) (Some old) (length vs)
               = Some (map (\<lambda>v. (CB_SUCCESS, Some v)) vs, Some cb2)"
proof -
  have e: "cb_fifo cb = []"
    using length_cb_fifo [OF assms(1)] assms(2) by simp
  have "unat (count cb) + length vs \<le> unat (capacity cb)"
    using assms(2,3) by simp
  with assms(1) obtain cb1 where cb1:
    "push_loop policy (Some cb) vs = Some (replicate (length vs) CB_SUCCESS, Some cb1)"
    "cb_valid cb1" "cb_fifo cb1 = cb_fifo cb @ vs"
    using push_loop_fifo by blast
  have f1: "cb_fifo cb1 = vs" using cb1(3) e by simp
  then have "length vs \<le> unat (count cb1)"
    using length_cb_fifo [OF cb1(2)] by simp
  with cb1(2) obtain cb2 where
    "pop_loop (Some cb1) (Some old) (length vs)
       = Some (map (\<lambda>v. (CB_SUCCESS, Some v)) (take (length vs) (cb_fifo cb1)), Some cb2)"
    using pop_loop_fifo by blast
  then show ?thesis using cb1(1) f1 by simp
qed

theorem fifo_order_from_empty_witness:
  "cb_valid cb_drained \<and> count cb_drained = 0
   \<and> length [1, 2, 3 :: SensorData_t] \<le> unat (capacity cb_drained)
   \<and> (\<exists>cb1 cb2.
         push_loop POLICY_REJECT_NEW (Some cb_drained) [1, 2, 3]
           = Some ([CB_SUCCESS, CB_SUCCESS, CB_SUCCESS], Some cb1)
         \<and> pop_loop (Some cb1) (Some 0) 3
             = Some ([(CB_SUCCESS, Some 1), (CB_SUCCESS, Some 2), (CB_SUCCESS, Some 3)],
                     Some cb2))"
proof -
  have h: "cb_valid cb_drained" "count cb_drained = 0"
    "length [1, 2, 3 :: SensorData_t] \<le> unat (capacity cb_drained)"
    by code_simp+
  show ?thesis
    using h fifo_order_from_empty [OF h, of POLICY_REJECT_NEW 0]
    by (simp add: numeral_3_eq_3)
qed

text \<open>
  C1 as stated fails on a buffer that already holds an element. The buffer of
  capacity 2 that holds 5 is what \<^verbatim>\<open>cb_init\<close> and one push leave; one more push, of 7,
  succeeds without overwriting, and the pop that follows returns 5.
\<close>

theorem fifo_order_nonempty_counterexample:
  "cb_init (Some cb_zero) 2 True
     = (CB_SUCCESS,
        Some \<lparr>pBuffer = Some [0, 0], writeIndex = 0, readIndex = 0, count = 0,
              capacity = 2, indexMask = 1, isInitialized = True\<rparr>)
   \<and> cb_push (Some \<lparr>pBuffer = Some [0, 0], writeIndex = 0, readIndex = 0, count = 0,
                     capacity = 2, indexMask = 1, isInitialized = True\<rparr>) 5
       = Some (CB_SUCCESS, Some cb_one)
   \<and> push_loop BUFFER_FULL_POLICY (Some cb_one) [7]
       = Some ([CB_SUCCESS],
               Some \<lparr>pBuffer = Some [5, 7], writeIndex = 0, readIndex = 0, count = 2,
                     capacity = 2, indexMask = 1, isInitialized = True\<rparr>)
   \<and> pop_loop (Some \<lparr>pBuffer = Some [5, 7], writeIndex = 0, readIndex = 0, count = 2,
                      capacity = 2, indexMask = 1, isInitialized = True\<rparr>) (Some 0) 1
       = Some ([(CB_SUCCESS, Some 5)],
               Some \<lparr>pBuffer = Some [5, 7], writeIndex = 0, readIndex = 1, count = 1,
                     capacity = 2, indexMask = 1, isInitialized = True\<rparr>)
   \<and> (5 :: SensorData_t) \<noteq> 7"
  by code_simp

section \<open>Pushing onto a full buffer\<close>

text \<open>
  C2, as the code has it. On a well-formed buffer with \<open>count = capacity\<close> a push under
  the overwrite policy succeeds, in both copies of \<^verbatim>\<open>cb_push\<close>: \<open>readIndex\<close> becomes
  \<open>(readIndex + 1) AND indexMask\<close>, \<open>count\<close> stays at \<open>capacity\<close>, the value is written to
  the slot at the old \<open>writeIndex\<close> and \<open>writeIndex\<close> becomes
  \<open>(writeIndex + 1) AND indexMask\<close>. With a capacity of at least 2 the next pop returns
  the element that was second in FIFO order before the push; with capacity 1 there is no
  such element and the next pop returns the value just pushed.
\<close>

theorem push_full_overwrites_oldest:
  assumes "cb_valid cb" and "count cb = capacity cb"
  shows "\<exists>buf xs cb' cb''.
           pBuffer cb = Some buf
           \<and> cb_printContents (Some cb) = Some xs \<and> length xs = unat (capacity cb)
           \<and> cb_push_policy POLICY_OVERWRITE_OLDEST (Some cb) v = Some (CB_SUCCESS, Some cb')
           \<and> cb_push_mini POLICY_OVERWRITE_OLDEST (Some cb) v = Some (CB_SUCCESS, Some cb')
           \<and> readIndex cb' = (readIndex cb + 1) AND indexMask cb
           \<and> count cb' = capacity cb \<and> capacity cb' = capacity cb
           \<and> indexMask cb' = indexMask cb
           \<and> pBuffer cb' = Some (buf[unat (writeIndex cb) := v])
           \<and> writeIndex cb' = (writeIndex cb + 1) AND indexMask cb
           \<and> cb_pop (Some cb') (Some old)
               = Some (CB_SUCCESS, Some cb'', Some (if capacity cb = 1 then v else xs ! 1))"
proof -
  from assms(1) obtain k buf where k: "k < 32" "capacity cb = 2 ^ k" "indexMask cb = mask k"
    "pBuffer cb = Some buf" "length buf = 2 ^ k" "isInitialized cb"
    "writeIndex cb < 2 ^ k" "readIndex cb < 2 ^ k" "count cb \<le> 2 ^ k"
    "writeIndex cb = (readIndex cb + count cb) AND mask k"
    by (rule cb_validD)
  define cb' where "cb' = cb\<lparr>pBuffer := Some (buf[unat (writeIndex cb) := v]),
    writeIndex := (writeIndex cb + 1) AND indexMask cb,
    readIndex := (readIndex cb + 1) AND indexMask cb\<rparr>"
  define cb'' where "cb'' = cb'\<lparr>readIndex := (readIndex cb' + 1) AND indexMask cb',
    count := count cb' - 1\<rparr>"
  have push: "cb_push_policy POLICY_OVERWRITE_OLDEST (Some cb) v = Some (CB_SUCCESS, Some cb')"
    unfolding cb'_def using assms k(4) by (rule push_full_overwrite)
  have mini: "cb_push_mini POLICY_OVERWRITE_OLDEST (Some cb) v = Some (CB_SUCCESS, Some cb')"
    using push by (simp add: cb_push_mini_eq)
  have v': "cb_valid cb'"
    unfolding cb'_def using assms k(4) by (rule push_full_overwrite_valid)
  have pB: "pBuffer cb' = Some (buf[unat (writeIndex cb) := v])"
    by (simp add: cb'_def)
  have r': "readIndex cb' = (readIndex cb + 1) AND mask k"
    using k(3) by (simp add: cb'_def)
  have "unat (count cb') = 2 ^ k"
    using assms(2) k(1,2) by (simp add: cb'_def unat_exp_small)
  then have ne: "count cb' \<noteq> 0" by auto
  have pop: "cb_pop (Some cb') (Some old)
      = Some (CB_SUCCESS, Some cb'', Some (buf[unat (writeIndex cb) := v] ! unat (readIndex cb')))"
    unfolding cb''_def using v' ne pB by (rule pop_not_empty)
  have xs: "cb_printContents (Some cb) = Some (cb_fifo cb)"
    using assms(1) by (rule printContents_fifo)
  have n: "unat (count cb) = 2 ^ k"
    using assms(2) k(1,2) by (simp add: unat_exp_small)
  have len: "length (cb_fifo cb) = unat (capacity cb)"
    using length_cb_fifo [OF assms(1)] assms(2) by simp
  have wr: "writeIndex cb = readIndex cb" using assms by (rule full_write_is_read)
  have val: "buf[unat (writeIndex cb) := v] ! unat (readIndex cb')
      = (if capacity cb = 1 then v else cb_fifo cb ! 1)"
  proof (cases "capacity cb = 1")
    case True
    then have "unat ((2::32 word) ^ k) = 1" using k(2) by simp
    then have k0: "k = 0" using k(1) by (simp add: unat_exp_small)
    have "readIndex cb = 0" using k(8) k0 by (simp add: word_less_nat_alt unat_eq_0)
    then have "unat (writeIndex cb) = 0" "unat (readIndex cb') = 0"
      using wr r' k0 by simp_all
    then show ?thesis using True k(5) k0 by simp
  next
    case False
    have "k \<noteq> 0"
    proof
      assume "k = 0"
      then have "capacity cb = 1" using k(2) by simp
      with False show False by simp
    qed
    then have one: "(1::nat) < 2 ^ k"
      using one_less_power [of "2::nat" k] by simp
    have "(readIndex cb + of_nat 0) AND mask k \<noteq> (readIndex cb + of_nat 1) AND mask k"
      using k(1) _ one by (rule and_mask_inj) simp
    then have "readIndex cb \<noteq> readIndex cb'"
      using r' less_mask_eq [OF k(8)] by simp
    then have "unat (writeIndex cb) \<noteq> unat (readIndex cb')"
      using wr by (simp add: word_unat_eq_iff)
    then have "buf[unat (writeIndex cb) := v] ! unat (readIndex cb') = buf ! unat (readIndex cb')"
      by simp
    also have "\<dots> = cb_fifo cb ! 1"
      using k(3,4) n one r' by (simp add: cb_fifo_def ring_slots_def)
    finally show ?thesis using False by simp
  qed
  have "readIndex cb' = (readIndex cb + 1) AND indexMask cb"
    "count cb' = capacity cb" "capacity cb' = capacity cb" "indexMask cb' = indexMask cb"
    "writeIndex cb' = (writeIndex cb + 1) AND indexMask cb"
    using assms(2) by (simp_all add: cb'_def)
  then show ?thesis
    using k(4) xs len push mini pB pop val by auto
qed

theorem push_full_overwrites_oldest_witness:
  "cb_valid cb_full \<and> count cb_full = capacity cb_full
   \<and> cb_printContents (Some cb_full) = Some [10, 20, 30, 40]
   \<and> (\<exists>cb' cb''.
         cb_push_policy POLICY_OVERWRITE_OLDEST (Some cb_full) 50 = Some (CB_SUCCESS, Some cb')
         \<and> readIndex cb' = 3 \<and> writeIndex cb' = 3 \<and> count cb' = 4
         \<and> pBuffer cb' = Some [30, 40, 50, 20]
         \<and> cb_pop (Some cb') (Some 0) = Some (CB_SUCCESS, Some cb'', Some 20))"
proof -
  have h: "cb_valid cb_full" "count cb_full = capacity cb_full"
    by code_simp+
  have c: "cb_printContents (Some cb_full) = Some [10, 20, 30, 40]"
    by code_simp
  show ?thesis
    using h c push_full_overwrites_oldest [OF h, of 50 0]
    by (auto simp add: cb_full_def)
qed

text \<open>
  C2 as stated fails for capacity 1: the full buffer holds 5 alone, the push of 9
  succeeds, and the next pop returns 9, which the buffer did not hold before the push.
\<close>

theorem push_full_capacity_one_counterexample:
  "cb_valid cb_single \<and> count cb_single = capacity cb_single
   \<and> cb_printContents (Some cb_single) = Some [5]
   \<and> cb_push_policy POLICY_OVERWRITE_OLDEST (Some cb_single) 9
       = Some (CB_SUCCESS,
               Some \<lparr>pBuffer = Some [9], writeIndex = 0, readIndex = 0, count = 1,
                     capacity = 1, indexMask = 0, isInitialized = True\<rparr>)
   \<and> cb_pop (Some \<lparr>pBuffer = Some [9], writeIndex = 0, readIndex = 0, count = 1,
                    capacity = 1, indexMask = 0, isInitialized = True\<rparr>) (Some 0)
       = Some (CB_SUCCESS,
               Some \<lparr>pBuffer = Some [9], writeIndex = 0, readIndex = 0, count = 0,
                     capacity = 1, indexMask = 0, isInitialized = True\<rparr>,
               Some 9)
   \<and> (9 :: SensorData_t) \<noteq> 5"
  by code_simp

section \<open>Failed calls leave the buffer alone\<close>

text \<open>
  C3. On an initialized buffer with \<open>count = capacity\<close>, a push under the reject-new
  policy returns \<^verbatim>\<open>CB_ERROR_FULL\<close>, in both copies of \<^verbatim>\<open>cb_push\<close>, and the whole
  structure, storage included, is as before: \<open>count\<close>, \<open>writeIndex\<close>, \<open>readIndex\<close> and
  every slot are unchanged.
\<close>

theorem cb_push_reject_full_unchanged:
  assumes "isInitialized cb" and "count cb = capacity cb"
  shows "cb_push_policy POLICY_REJECT_NEW (Some cb) v = Some (CB_ERROR_FULL, Some cb)
         \<and> cb_push_mini POLICY_REJECT_NEW (Some cb) v = Some (CB_ERROR_FULL, Some cb)"
  using assms
  by (simp add: cb_push_policy_def cb_push_mini_def cb_isFull_def cb_macros)

theorem cb_push_reject_full_unchanged_witness:
  "isInitialized cb_full \<and> count cb_full = capacity cb_full
   \<and> cb_push_policy POLICY_REJECT_NEW (Some cb_full) 50 = Some (CB_ERROR_FULL, Some cb_full)
   \<and> cb_push_mini POLICY_REJECT_NEW (Some cb_full) 50 = Some (CB_ERROR_FULL, Some cb_full)"
  using cb_push_reject_full_unchanged [of cb_full 50] by (simp add: cb_full_def)

text \<open>
  C4. On an initialized buffer with \<open>count = 0\<close>, a pop into a valid output location
  returns \<^verbatim>\<open>CB_ERROR_EMPTY\<close>; the structure (indices, count, storage) is unchanged and
  the output location still holds what it held.
\<close>

theorem cb_pop_empty_unchanged:
  assumes "isInitialized cb" and "count cb = 0"
  shows "cb_pop (Some cb) (Some old) = Some (CB_ERROR_EMPTY, Some cb, Some old)"
  using assms by (simp add: cb_pop_def cb_isEmpty_def)

theorem cb_pop_empty_unchanged_witness:
  "isInitialized cb_drained \<and> count cb_drained = 0
   \<and> cb_pop (Some cb_drained) (Some 77) = Some (CB_ERROR_EMPTY, Some cb_drained, Some 77)"
  using cb_pop_empty_unchanged [of cb_drained 77] by (simp add: cb_drained_def)

section \<open>Calls outside the ready state\<close>

text \<open>
  C7, as the code has it. On a buffer whose \<open>isInitialized\<close> flag is false, push, pop,
  peek and clear return \<^verbatim>\<open>CB_ERROR_NULL_POINTER\<close>, the one code the file has for this
  case, and return the structure and the output location as they were. The queries
  report no error: \<^verbatim>\<open>cb_isEmpty\<close> is true, \<^verbatim>\<open>cb_isFull\<close> is false, \<^verbatim>\<open>cb_getCount\<close> and
  \<^verbatim>\<open>cb_getFreeSpace\<close> are 0. \<^verbatim>\<open>cb_deinit\<close> succeeds.
\<close>

theorem not_initialized_calls:
  assumes "\<not> isInitialized cb"
  shows "cb_push_policy policy (Some cb) v = Some (CB_ERROR_NULL_POINTER, Some cb)
         \<and> cb_pop (Some cb) pData = Some (CB_ERROR_NULL_POINTER, Some cb, pData)
         \<and> cb_peek (Some cb) pData = Some (CB_ERROR_NULL_POINTER, Some cb, pData)
         \<and> cb_clear (Some cb) = (CB_ERROR_NULL_POINTER, Some cb)
         \<and> cb_isEmpty (Some cb) \<and> \<not> cb_isFull (Some cb)
         \<and> cb_getCount (Some cb) = 0 \<and> cb_getFreeSpace (Some cb) = 0
         \<and> fst (cb_deinit (Some cb)) = CB_SUCCESS"
  using assms
  by (simp add: cb_push_policy_def cb_pop_def cb_peek_def cb_clear_def cb_isEmpty_def
      cb_isFull_def cb_getCount_def cb_getFreeSpace_def cb_deinit_def split: option.splits)

theorem not_initialized_calls_witness:
  "\<not> isInitialized cb_zero
   \<and> cb_push_policy BUFFER_FULL_POLICY (Some cb_zero) 1 = Some (CB_ERROR_NULL_POINTER, Some cb_zero)
   \<and> cb_pop (Some cb_zero) (Some 7) = Some (CB_ERROR_NULL_POINTER, Some cb_zero, Some 7)
   \<and> cb_peek (Some cb_zero) (Some 7) = Some (CB_ERROR_NULL_POINTER, Some cb_zero, Some 7)
   \<and> cb_clear (Some cb_zero) = (CB_ERROR_NULL_POINTER, Some cb_zero)
   \<and> cb_isEmpty (Some cb_zero) \<and> \<not> cb_isFull (Some cb_zero)
   \<and> cb_getCount (Some cb_zero) = 0 \<and> cb_getFreeSpace (Some cb_zero) = 0
   \<and> fst (cb_deinit (Some cb_zero)) = CB_SUCCESS"
proof -
  have h: "\<not> isInitialized cb_zero" by (simp add: cb_zero_def)
  show ?thesis
    using h not_initialized_calls [OF h, of BUFFER_FULL_POLICY 1 "Some 7"] by simp
qed

text \<open>
  C7 as stated fails. On the zeroed, not initialized structure \<^verbatim>\<open>cb_isEmpty\<close> and
  \<^verbatim>\<open>cb_getCount\<close> answer as they do on an initialized empty buffer, so no error reaches
  the caller, and \<^verbatim>\<open>cb_deinit\<close>, an operation other than init, returns \<^verbatim>\<open>CB_SUCCESS\<close>.
\<close>

theorem not_initialized_queries_counterexample:
  "\<not> isInitialized cb_zero \<and> isInitialized cb_drained
   \<and> cb_isEmpty (Some cb_zero) = cb_isEmpty (Some cb_drained)
   \<and> cb_getCount (Some cb_zero) = cb_getCount (Some cb_drained)
   \<and> cb_deinit (Some cb_zero) = (CB_SUCCESS, Some cb_zero, [])
   \<and> CB_SUCCESS \<noteq> CB_ERROR_NULL_POINTER"
  by code_simp

section \<open>Clear and deinit\<close>

text \<open>
  C8. On an initialized buffer \<^verbatim>\<open>cb_clear\<close> succeeds and sets \<open>writeIndex\<close>,
  \<open>readIndex\<close> and \<open>count\<close> to 0; the storage block, slot by slot, and \<open>capacity\<close>,
  \<open>indexMask\<close> and the initialization flag are as before.
\<close>

theorem cb_clear_resets_indices_only:
  assumes "isInitialized cb"
  shows "\<exists>cb'. cb_clear (Some cb) = (CB_SUCCESS, Some cb')
           \<and> writeIndex cb' = 0 \<and> readIndex cb' = 0 \<and> count cb' = 0
           \<and> pBuffer cb' = pBuffer cb \<and> capacity cb' = capacity cb
           \<and> indexMask cb' = indexMask cb \<and> isInitialized cb'"
  using assms by (simp add: cb_clear_def)

theorem cb_clear_resets_indices_only_witness:
  "isInitialized cb_three
   \<and> (\<exists>cb'. cb_clear (Some cb_three) = (CB_SUCCESS, Some cb')
         \<and> writeIndex cb' = 0 \<and> readIndex cb' = 0 \<and> count cb' = 0
         \<and> pBuffer cb' = Some [30, 0, 10, 20] \<and> capacity cb' = 4 \<and> indexMask cb' = 3)"
proof -
  have h: "isInitialized cb_three" by (simp add: cb_three_def)
  show ?thesis
    using h cb_clear_resets_indices_only [OF h] by (auto simp add: cb_three_def)
qed

text \<open>
  C9. \<^verbatim>\<open>cb_deinit\<close> on any structure succeeds, frees the block if there is one and
  leaves the flag false, the block pointer null and capacity, indices and count 0. A
  second \<^verbatim>\<open>cb_deinit\<close> right after succeeds too, frees nothing and returns the very
  same structure.
\<close>

theorem cb_deinit_idempotent:
  "\<exists>cb1 freed. cb_deinit (Some cb) = (CB_SUCCESS, Some cb1, freed)
     \<and> freed = (case pBuffer cb of None \<Rightarrow> [] | Some buf \<Rightarrow> [buf])
     \<and> cb_deinit (Some cb1) = (CB_SUCCESS, Some cb1, [])
     \<and> \<not> isInitialized cb1 \<and> pBuffer cb1 = None \<and> capacity cb1 = 0
     \<and> writeIndex cb1 = 0 \<and> readIndex cb1 = 0 \<and> count cb1 = 0"
  by (cases "pBuffer cb") (simp_all add: cb_deinit_def)

theorem cb_deinit_idempotent_witness:
  "cb_deinit (Some cb_three)
     = (CB_SUCCESS,
        Some \<lparr>pBuffer = None, writeIndex = 0, readIndex = 0, count = 0, capacity = 0,
              indexMask = 3, isInitialized = False\<rparr>,
        [[30, 0, 10, 20]])
   \<and> cb_deinit (Some \<lparr>pBuffer = None, writeIndex = 0, readIndex = 0, count = 0,
                       capacity = 0, indexMask = 3, isInitialized = False\<rparr>)
       = (CB_SUCCESS,
          Some \<lparr>pBuffer = None, writeIndex = 0, readIndex = 0, count = 0, capacity = 0,
                indexMask = 3, isInitialized = False\<rparr>,
          [])"
  using cb_deinit_idempotent [of cb_three]
  by (auto simp add: cb_three_def cb_deinit_def)

section \<open>The guarded entry points\<close>

text \<open>
  C10. For every buffer pointer, value, output location, platform and interrupt flag,
  \<^verbatim>\<open>cb_push_safe\<close> and \<^verbatim>\<open>cb_pop_safe\<close> give the result code, the buffer and the output
  location that \<^verbatim>\<open>cb_push\<close> and \<^verbatim>\<open>cb_pop\<close> give, and are undefined exactly where those
  are.
\<close>

theorem safe_wrappers_agree:
  "map_option (\<lambda>(result, p', irq'). (result, p')) (cb_push_safe arm irq p v) = cb_push p v
   \<and> map_option (\<lambda>(result, p', pData', irq'). (result, p', pData'))
        (cb_pop_safe arm irq p pData) = cb_pop p pData"
  by (simp add: cb_push_safe_def cb_pop_safe_def split: option.splits)

theorem safe_wrappers_agree_witness:
  "cb_push_safe False True (Some cb_three) 40 = Some (CB_SUCCESS, Some cb_full, True)
   \<and> cb_push (Some cb_three) 40 = Some (CB_SUCCESS, Some cb_full)
   \<and> cb_pop_safe True True (Some cb_drained) (Some 7)
       = Some (CB_ERROR_EMPTY, Some cb_drained, Some 7, True)
   \<and> cb_pop (Some cb_drained) (Some 7) = Some (CB_ERROR_EMPTY, Some cb_drained, Some 7)"
proof -
  have a: "cb_push_safe False True (Some cb_three) 40 = Some (CB_SUCCESS, Some cb_full, True)"
    and b: "cb_pop_safe True True (Some cb_drained) (Some 7)
       = Some (CB_ERROR_EMPTY, Some cb_drained, Some 7, True)"
    by code_simp+
  show ?thesis
    using a b safe_wrappers_agree [of False True "Some cb_three" 40 "Some 7"]
      safe_wrappers_agree [of True True "Some cb_drained" 40 "Some 7"]
    by simp
qed

end
